theory Spec2Isabelle
  imports Complex_Main "HOL-Library.Stream"
begin

section \<open>The sample producer of example/python/producer.py\<close>

text \<open>
  The script is one unbounded loop around calls into three libraries:
  \<^verbatim>\<open>
  counter = 1
  while True:
      data = {"value1": random(),
              "value2": 1 + random()}
      producer.produce("test", value=json.dumps(data))
      print("Sample #{} produced!".format(counter))
      counter += 1
      producer.flush(1)
      sleep(0.5)
  \<close>
  The embedding keeps the loop, the counter and the order of the calls. What the libraries
  answer (the two random draws, whether \<open>produce\<close> and \<open>flush\<close> return or raise) is
  the input of the model, one \<open>tick\<close> per iteration.
\<close>

subsection \<open>Python floats: binary64 values and their addition\<close>

text \<open>
  A finite Python float is a rational number that binary64 can represent. The sum
  \<open>1 + random()\<close> is the exact sum rounded to the nearest binary64 value, ties to the
  even significand. \<open>binade x\<close> is the exponent \<open>e\<close> with \<open>2^e \<le> x < 2^(e+1)\<close> for
  positive \<open>x\<close>; the significand has 53 bits, the least normal exponent is \<open>-1022\<close>.
  Overflow to infinity is not part of the model: it needs a sum of at least \<open>2^1024\<close>.
\<close>

function binade :: "rat \<Rightarrow> int" where
  "binade x =
     (if x \<le> 0 then 0
      else if 2 \<le> x then binade (x / 2) + 1
      else if x < 1 then binade (x * 2) - 1
      else 0)"
  by pat_completeness auto
termination
proof (relation "measure (\<lambda>x. nat \<lceil>x\<rceil> + 2 * nat \<lceil>1 / x\<rceil>)")
  show "wf (measure (\<lambda>x::rat. nat \<lceil>x\<rceil> + 2 * nat \<lceil>1 / x\<rceil>))"
    by simp
next
  fix x :: rat
  assume "\<not> x \<le> 0" and x: "2 \<le> x"
  have a: "\<lceil>1 / x\<rceil> = 1"
    using x by (intro ceiling_unique) (auto simp: field_simps)
  have b: "\<lceil>1 / (x / 2)\<rceil> = 1"
    using x by (intro ceiling_unique) (auto simp: field_simps)
  have "x / 2 \<le> x - 1"
    using x by simp
  then have "\<lceil>x / 2\<rceil> \<le> \<lceil>x - 1\<rceil>"
    by (rule ceiling_mono)
  then have c: "\<lceil>x / 2\<rceil> < \<lceil>x\<rceil>"
    by simp
  have "0 < \<lceil>x\<rceil>"
    using x by simp
  with c have "nat \<lceil>x / 2\<rceil> < nat \<lceil>x\<rceil>"
    by linarith
  with a b show "(x / 2, x) \<in> measure (\<lambda>x. nat \<lceil>x\<rceil> + 2 * nat \<lceil>1 / x\<rceil>)"
    unfolding in_measure by simp
next
  fix x :: rat
  assume "\<not> x \<le> 0" and "\<not> 2 \<le> x" and "x < 1"
  then have x: "0 < x" "x < 1"
    by simp_all
  have a: "\<lceil>x\<rceil> = 1"
    using x by (intro ceiling_unique) auto
  have "nat \<lceil>x * 2\<rceil> + 2 * nat \<lceil>1 / (x * 2)\<rceil> < nat \<lceil>x\<rceil> + 2 * nat \<lceil>1 / x\<rceil>"
  proof (cases "x \<le> 1 / 2")
    case True
    have b: "\<lceil>x * 2\<rceil> = 1"
      using x True by (intro ceiling_unique) auto
    have "1 / (x * 2) \<le> 1 / x - 1"
      using x True by (simp add: field_simps)
    then have "\<lceil>1 / (x * 2)\<rceil> \<le> \<lceil>1 / x - 1\<rceil>"
      by (rule ceiling_mono)
    then have c: "\<lceil>1 / (x * 2)\<rceil> < \<lceil>1 / x\<rceil>"
      by simp
    have "0 < \<lceil>1 / x\<rceil>"
      using x by simp
    with c have "nat \<lceil>1 / (x * 2)\<rceil> < nat \<lceil>1 / x\<rceil>"
      by linarith
    with a b show ?thesis
      by simp
  next
    case False
    have b: "\<lceil>x * 2\<rceil> = 2"
      using x False by (intro ceiling_unique) auto
    have c: "\<lceil>1 / (x * 2)\<rceil> = 1"
      using x False by (intro ceiling_unique) (auto simp: field_simps)
    have d: "\<lceil>1 / x\<rceil> = 2"
      using x False by (intro ceiling_unique) (auto simp: field_simps)
    from a b c d show ?thesis
      by simp
  qed
  then show "(x * 2, x) \<in> measure (\<lambda>x. nat \<lceil>x\<rceil> + 2 * nat \<lceil>1 / x\<rceil>)"
    unfolding in_measure .
qed

declare binade.simps [simp del]

definition pow2 :: "int \<Rightarrow> rat" where
  "pow2 e = (if 0 \<le> e then 2 ^ nat e else 1 / 2 ^ nat (- e))"

definition round_half_even :: "rat \<Rightarrow> int" where
  "round_half_even x =
     (let f = \<lfloor>x\<rfloor>; d = x - of_int f
      in if d < 1 / 2 then f
         else if 1 / 2 < d then f + 1
         else if even f then f else f + 1)"

definition round_double :: "rat \<Rightarrow> rat" where
  "round_double x =
     (if x = 0 then 0
      else let u = pow2 (max (binade \<bar>x\<bar>) (- 1022) - 52)
           in of_int (round_half_even (x / u)) * u)"

definition fadd :: "rat \<Rightarrow> rat \<Rightarrow> rat" where
  "fadd x y = round_double (x + y)"

definition is_double :: "rat \<Rightarrow> bool" where
  "is_double x = (\<bar>x\<bar> < 2 ^ 1024 \<and> round_double x = x)"

text \<open>What \<open>random()\<close> promises: a float \<open>X\<close> with \<open>0.0 \<le> X < 1.0\<close>.\<close>

definition is_draw :: "rat \<Rightarrow> bool" where
  "is_draw r = (is_double r \<and> 0 \<le> r \<and> r < 1)"

subsection \<open>Text: \<open>str.format\<close> on an int, \<open>json.dumps\<close> on the sample\<close>

fun str_nat :: "nat \<Rightarrow> string" where
  "str_nat n =
     (if n < 10 then [''0123456789'' ! n]
      else str_nat (n div 10) @ [''0123456789'' ! (n mod 10)])"

definition str_int :: "int \<Rightarrow> string" where
  "str_int i = (if i < 0 then CHR ''-'' # str_nat (nat (- i)) else str_nat (nat i))"

definition format_sample :: "int \<Rightarrow> string" where
  "format_sample n = ''Sample #'' @ str_int n @ '' produced!''"

text \<open>
  The sample is a dict with string keys and float values, in insertion order.
  \<open>json.dumps\<close> with its default separators writes \<open>{"k1": v1, "k2": v2}\<close>; the keys
  of the script need no escaping. The text of a float (\<open>float.__repr__\<close>) belongs to the
  Python runtime and is the parameter \<open>repr\<close>.
\<close>

type_synonym sample = "(string \<times> rat) list"

fun join_items :: "string list \<Rightarrow> string" where
  "join_items [] = []"
| "join_items [x] = x"
| "join_items (x # y # ys) = x @ '', '' @ join_items (y # ys)"

definition json_item :: "(rat \<Rightarrow> string) \<Rightarrow> string \<times> rat \<Rightarrow> string" where
  \<open>json_item repr kv = ''"'' @ fst kv @ ''": '' @ repr (snd kv)\<close>

definition json_dumps :: "(rat \<Rightarrow> string) \<Rightarrow> sample \<Rightarrow> string" where
  "json_dumps repr d = ''{'' @ join_items (map (json_item repr) d) @ ''}''"

subsection \<open>The loop\<close>

datatype exn = Exn string

text \<open>
  The answers of the libraries during one iteration: the two draws of \<open>random()\<close> in
  the order the dict display makes them, whether \<open>produce\<close> returns (\<open>None\<close>) or
  raises, and whether \<open>flush\<close> returns the number of messages still queued or raises.
  The calls \<open>random\<close>, \<open>json.dumps\<close>, \<open>print\<close> and \<open>sleep\<close> are taken to return.
\<close>

record tick =
  draw1 :: rat
  draw2 :: rat
  produce_out :: "exn option"
  flush_out :: "exn + int"

record state =
  counter :: int

datatype call =
    Call_random
  | Call_dumps sample
  | Call_produce string string
  | Call_print string
  | Call_flush int
  | Call_sleep rat

definition init :: state where
  "init = \<lparr>counter = 1\<rparr>"

definition make_data :: "tick \<Rightarrow> sample" where
  "make_data t = [(''value1'', draw1 t), (''value2'', fadd 1 (draw2 t))]"

text \<open>
  One pass through the loop body: the library calls it makes, in order, and either the
  exception that leaves the loop or the state the next pass starts from.
\<close>

definition body :: "(rat \<Rightarrow> string) \<Rightarrow> tick \<Rightarrow> state \<Rightarrow> call list \<times> (exn + state)" where
  "body repr t st =
     (let data = make_data t;
          cs1 = [Call_random, Call_random, Call_dumps data,
                 Call_produce ''test'' (json_dumps repr data)]
      in case produce_out t of
           Some e \<Rightarrow> (cs1, Inl e)
         | None \<Rightarrow>
             (let cs2 = cs1 @ [Call_print (format_sample (counter st))];
                  st' = st\<lparr>counter := counter st + 1\<rparr>;
                  cs3 = cs2 @ [Call_flush 1]
              in case flush_out t of
                   Inl e \<Rightarrow> (cs3, Inl e)
                 | Inr n \<Rightarrow> (cs3 @ [Call_sleep (1 / 2)], Inr st')))"

record iteration =
  start :: state
  calls :: "call list"
  outcome :: "exn + state"

text \<open>
  The history of the loop over the first ticks of its environment: one entry per pass that
  was started. A pass that raises is the last one.
\<close>

fun run :: "(rat \<Rightarrow> string) \<Rightarrow> tick list \<Rightarrow> state \<Rightarrow> iteration list" where
  "run repr [] st = []"
| "run repr (t # ts) st =
     (let (cs, out) = body repr t st
      in \<lparr>start = st, calls = cs, outcome = out\<rparr> #
         (case out of Inl e \<Rightarrow> [] | Inr st' \<Rightarrow> run repr ts st'))"

text \<open>
  \<open>while True\<close> itself: the loop returns only with the exception that a call raised;
  \<open>None\<close> is the loop that never returns.
\<close>

partial_function (option) loop :: "(rat \<Rightarrow> string) \<Rightarrow> tick stream \<Rightarrow> state \<Rightarrow> exn option" where
  "loop repr ts st =
     (case snd (body repr (shd ts) st) of
        Inl e \<Rightarrow> Some e
      | Inr st' \<Rightarrow> loop repr (stl ts) st')"

definition raised :: "tick \<Rightarrow> exn option" where
  "raised t =
     (case produce_out t of
        Some e \<Rightarrow> Some e
      | None \<Rightarrow> (case flush_out t of Inl e \<Rightarrow> Some e | Inr n \<Rightarrow> None))"

definition published :: "iteration \<Rightarrow> (string \<times> string) list" where
  "published it = concat (map (\<lambda>c. case c of Call_produce d p \<Rightarrow> [(d, p)] | _ \<Rightarrow> []) (calls it))"

definition printed :: "iteration \<Rightarrow> string list" where
  "printed it = concat (map (\<lambda>c. case c of Call_print s \<Rightarrow> [s] | _ \<Rightarrow> []) (calls it))"

definition samples :: "iteration \<Rightarrow> sample list" where
  "samples it = concat (map (\<lambda>c. case c of Call_dumps d \<Rightarrow> [d] | _ \<Rightarrow> []) (calls it))"

text \<open>
  The wire payload as the specification writes it, \<open>{"value1": 0.1834, "value2": 1.2201}\<close>:
  an object of the two keys in this order, to be compared with what \<open>json_dumps\<close> makes
  of the sample.
\<close>

definition wire_payload :: "(rat \<Rightarrow> string) \<Rightarrow> rat \<Rightarrow> rat \<Rightarrow> string" where
  \<open>wire_payload repr v1 v2 = ''{"value1": '' @ repr v1 @ '', "value2": '' @ repr v2 @ ''}''\<close>

section \<open>Properties\<close>

subsection \<open>Rounding\<close>

lemma floor_numeral_div_rat:
  "\<lfloor>numeral a / numeral b :: rat\<rfloor> = numeral a div numeral b"
  using floor_divide_of_int_eq [of "numeral a" "numeral b", where ?'a = rat] by simp

lemma binade_unit: "1 \<le> x \<Longrightarrow> x < 2 \<Longrightarrow> binade x = 0"
  by (subst binade.simps) simp

text \<open>
  \<open>binade\<close> is the binary exponent, and the rounding gives the float that Python shows
  for \<open>0.1\<close> (\<open>(0.1).as_integer_ratio()\<close>).
\<close>

lemma pow2_add1: "pow2 (e + 1) = 2 * pow2 e"
proof (cases "0 \<le> e")
  case True
  then have "nat (e + 1) = Suc (nat e)"
    by simp
  with True show ?thesis
    by (simp add: pow2_def)
next
  case False
  show ?thesis
  proof (cases "e = - 1")
    case True
    then show ?thesis
      by (simp add: pow2_def)
  next
    case False
    with \<open>\<not> 0 \<le> e\<close> have "e + 1 < 0"
      by simp
    moreover from this have "nat (- e) = Suc (nat (- (e + 1)))"
      by simp
    ultimately show ?thesis
      by (simp add: pow2_def)
  qed
qed

lemma pow2_sub1: "pow2 (e - 1) = pow2 e / 2"
  using pow2_add1 [of "e - 1"] by simp

lemma binade_bounds:
  "0 < x \<Longrightarrow> pow2 (binade x) \<le> x \<and> x < 2 * pow2 (binade x)"
proof (induction x rule: binade.induct)
  case (1 x)
  show ?case
  proof (cases "2 \<le> x")
    case True
    with 1 have "pow2 (binade (x / 2)) \<le> x / 2 \<and> x / 2 < 2 * pow2 (binade (x / 2))"
      by simp
    moreover from True 1(3) have "binade x = binade (x / 2) + 1"
      by (subst binade.simps) simp
    ultimately show ?thesis
      by (simp add: pow2_add1)
  next
    case False
    show ?thesis
    proof (cases "x < 1")
      case True
      with False 1 have "pow2 (binade (x * 2)) \<le> x * 2 \<and> x * 2 < 2 * pow2 (binade (x * 2))"
        by simp
      moreover from True False 1(3) have "binade x = binade (x * 2) - 1"
        by (subst binade.simps) simp
      ultimately show ?thesis
        by (simp add: pow2_sub1)
    next
      case False
      with \<open>\<not> 2 \<le> x\<close> 1(3) have "binade x = 0"
        by (subst binade.simps) simp
      with False \<open>\<not> 2 \<le> x\<close> show ?thesis
        by (simp add: pow2_def)
    qed
  qed
qed

lemma round_double_tenth: "round_double (1 / 10) = 3602879701896397 / 36028797018963968"
  by (simp add: round_double_def binade.simps pow2_def round_half_even_def Let_def floor_numeral_div_rat)

lemma floor_le_round_half_even: "\<lfloor>x\<rfloor> \<le> round_half_even x"
  by (simp add: round_half_even_def Let_def)

lemma round_half_even_le_floor: "round_half_even x \<le> \<lfloor>x\<rfloor> + 1"
  by (simp add: round_half_even_def Let_def)

lemma round_half_even_low: "x - of_int \<lfloor>x\<rfloor> < 1 / 2 \<Longrightarrow> round_half_even x = \<lfloor>x\<rfloor>"
  by (simp add: round_half_even_def Let_def)

lemma round_half_even_ge:
  assumes "of_int a \<le> x"
  shows "a \<le> round_half_even x"
proof -
  have "a \<le> \<lfloor>x\<rfloor>"
    using assms by (simp add: le_floor_iff)
  then show ?thesis
    using floor_le_round_half_even [of x] by linarith
qed

lemma round_half_even_le:
  assumes "x \<le> of_int b"
  shows "round_half_even x \<le> b"
proof (cases "x = of_int b")
  case True
  then show ?thesis
    by (simp add: round_half_even_def Let_def)
next
  case False
  with assms have "x < of_int b"
    by simp
  then have "\<lfloor>x\<rfloor> < b"
    by (simp add: floor_less_iff)
  then show ?thesis
    using round_half_even_le_floor [of x] by linarith
qed

lemma round_half_even_lt:
  assumes "x < of_int b - 1 / 2"
  shows "round_half_even x < b"
proof (cases "\<lfloor>x\<rfloor> < b - 1")
  case True
  then show ?thesis
    using round_half_even_le_floor [of x] by linarith
next
  case False
  have "x < of_int b"
    using assms by simp
  then have "\<lfloor>x\<rfloor> < b"
    by (simp add: floor_less_iff)
  with False have f: "\<lfloor>x\<rfloor> = b - 1"
    by simp
  then have "x - of_int \<lfloor>x\<rfloor> < 1 / 2"
    using assms by simp
  then have "round_half_even x = \<lfloor>x\<rfloor>"
    by (rule round_half_even_low)
  with f show ?thesis
    by simp
qed

lemma round_half_even_up:
  assumes "of_int b - 1 / 2 \<le> x" and "even b"
  shows "b \<le> round_half_even x"
proof (cases "b \<le> \<lfloor>x\<rfloor>")
  case True
  then show ?thesis
    using floor_le_round_half_even [of x] by linarith
next
  case False
  have "of_int (b - 1) \<le> x"
    using assms(1) by simp
  then have "b - 1 \<le> \<lfloor>x\<rfloor>"
    by (simp only: le_floor_iff)
  with False have f: "\<lfloor>x\<rfloor> = b - 1"
    by simp
  then have d: "1 / 2 \<le> x - of_int \<lfloor>x\<rfloor>"
    using assms(1) by simp
  have "odd \<lfloor>x\<rfloor>"
    using f assms(2) by simp
  with d have "round_half_even x = \<lfloor>x\<rfloor> + 1"
    by (auto simp: round_half_even_def Let_def)
  with f show ?thesis
    by simp
qed

lemma fadd_one_unfold:
  assumes "0 \<le> r" and "r < 1"
  shows "fadd 1 r = of_int (round_half_even ((1 + r) * 2 ^ 52)) / 2 ^ 52"
proof -
  have "binade \<bar>1 + r\<bar> = 0"
    using assms by (intro binade_unit) simp_all
  moreover have "1 + r \<noteq> 0"
    using assms by simp
  ultimately show ?thesis
    by (simp add: fadd_def round_double_def pow2_def Let_def)
qed

lemma fadd_one_bounds:
  assumes "0 \<le> r" and "r < 1"
  shows "1 \<le> fadd 1 r" and "fadd 1 r \<le> 2"
    and "fadd 1 r < 2 \<longleftrightarrow> r < 1 - 1 / 2 ^ 53"
proof -
  let ?q = "(1 + r) * 2 ^ 52"
  let ?n = "round_half_even ?q"
  have eq: "fadd 1 r = of_int ?n / 2 ^ 52"
    using assms by (rule fadd_one_unfold)
  have "of_int (2 ^ 52) \<le> ?q"
    using assms by simp
  then have lo: "2 ^ 52 \<le> ?n"
    by (rule round_half_even_ge)
  have "?q \<le> of_int (2 ^ 53)"
    using assms by simp
  then have hi: "?n \<le> 2 ^ 53"
    by (rule round_half_even_le)
  from lo have "(2 ^ 52 :: rat) \<le> of_int ?n"
    by (metis of_int_le_iff of_int_numeral of_int_power)
  then show "1 \<le> fadd 1 r"
    unfolding eq by (simp add: field_simps)
  from hi have "of_int ?n \<le> (2 ^ 53 :: rat)"
    by (metis of_int_le_iff of_int_numeral of_int_power)
  then show "fadd 1 r \<le> 2"
    unfolding eq by (simp add: field_simps)
  have lt: "fadd 1 r < 2 \<longleftrightarrow> ?n < 2 ^ 53"
  proof -
    have "fadd 1 r < 2 \<longleftrightarrow> of_int ?n < (2 ^ 53 :: rat)"
      unfolding eq by (simp add: field_simps)
    also have "\<dots> \<longleftrightarrow> ?n < 2 ^ 53"
      by (metis of_int_less_iff of_int_numeral of_int_power)
    finally show ?thesis .
  qed
  show "fadd 1 r < 2 \<longleftrightarrow> r < 1 - 1 / 2 ^ 53"
  proof
    assume "fadd 1 r < 2"
    with lt have n: "?n < 2 ^ 53"
      by simp
    show "r < 1 - 1 / 2 ^ 53"
    proof (rule ccontr)
      assume "\<not> r < 1 - 1 / 2 ^ 53"
      then have "of_int (2 ^ 53) - 1 / 2 \<le> ?q"
        by (simp add: field_simps)
      then have "2 ^ 53 \<le> ?n"
        by (rule round_half_even_up) simp
      with n show False
        by simp
    qed
  next
    assume "r < 1 - 1 / 2 ^ 53"
    then have "?q < of_int (2 ^ 53) - 1 / 2"
      by (simp add: field_simps)
    then have "?n < 2 ^ 53"
      by (rule round_half_even_lt)
    with lt show "fadd 1 r < 2"
      by simp
  qed
qed

subsection \<open>The body and the history\<close>

lemma body_produce_raises:
  "produce_out t = Some e \<Longrightarrow>
   body repr t st =
     ([Call_random, Call_random, Call_dumps (make_data t),
       Call_produce ''test'' (json_dumps repr (make_data t))], Inl e)"
  by (simp add: body_def Let_def)

lemma body_flush_raises:
  "produce_out t = None \<Longrightarrow> flush_out t = Inl e \<Longrightarrow>
   body repr t st =
     ([Call_random, Call_random, Call_dumps (make_data t),
       Call_produce ''test'' (json_dumps repr (make_data t)),
       Call_print (format_sample (counter st)), Call_flush 1], Inl e)"
  by (simp add: body_def Let_def)

lemma body_returns:
  "produce_out t = None \<Longrightarrow> flush_out t = Inr m \<Longrightarrow>
   body repr t st =
     ([Call_random, Call_random, Call_dumps (make_data t),
       Call_produce ''test'' (json_dumps repr (make_data t)),
       Call_print (format_sample (counter st)), Call_flush 1, Call_sleep (1 / 2)],
      Inr (st\<lparr>counter := counter st + 1\<rparr>))"
  by (simp add: body_def Let_def)

lemma body_outcome:
  "snd (body repr t st) = (case raised t of Some e \<Rightarrow> Inl e | None \<Rightarrow> Inr (st\<lparr>counter := counter st + 1\<rparr>))"
  by (simp add: body_def raised_def Let_def split: option.split sum.split)

lemma run_Cons:
  "run repr (t # ts) st =
     \<lparr>start = st, calls = fst (body repr t st), outcome = snd (body repr t st)\<rparr> #
     (case raised t of Some e \<Rightarrow> [] | None \<Rightarrow> run repr ts (st\<lparr>counter := counter st + 1\<rparr>))"
proof -
  obtain cs out where b: "body repr t st = (cs, out)"
    by (cases "body repr t st")
  have "out = (case raised t of Some e \<Rightarrow> Inl e | None \<Rightarrow> Inr (st\<lparr>counter := counter st + 1\<rparr>))"
    using body_outcome [of repr t st] b by simp
  with b show ?thesis
    by (simp split: option.split)
qed

declare run.simps(2) [simp del]

lemma length_run_le: "length (run repr ts st) \<le> length ts"
  by (induction ts arbitrary: st) (simp_all add: run_Cons split: option.split)

lemma run_nth:
  assumes "n < length (run repr ts st)"
  shows "run repr ts st ! n =
           \<lparr>start = st\<lparr>counter := counter st + int n\<rparr>,
            calls = fst (body repr (ts ! n) (st\<lparr>counter := counter st + int n\<rparr>)),
            outcome = snd (body repr (ts ! n) (st\<lparr>counter := counter st + int n\<rparr>))\<rparr>"
  using assms
proof (induction ts arbitrary: st n)
  case Nil
  then show ?case by simp
next
  case (Cons t ts)
  show ?case
  proof (cases n)
    case 0
    then show ?thesis by (simp add: run_Cons)
  next
    case (Suc k)
    with Cons.prems have r: "raised t = None"
      by (auto simp: run_Cons split: option.splits)
    with Cons.prems Suc have "k < length (run repr ts (st\<lparr>counter := counter st + 1\<rparr>))"
      by (simp add: run_Cons)
    from Cons.IH [OF this] r Suc show ?thesis
      by (simp add: run_Cons add.assoc)
  qed
qed

lemma run_reached:
  "n < length (run repr ts st) \<Longrightarrow> i < n \<Longrightarrow> raised (ts ! i) = None"
proof (induction ts arbitrary: st n i)
  case Nil
  then show ?case by simp
next
  case (Cons t ts)
  from Cons.prems have r: "raised t = None"
    by (cases n) (auto simp: run_Cons split: option.splits)
  show ?case
  proof (cases i)
    case 0
    with r show ?thesis by simp
  next
    case (Suc j)
    with Cons.prems obtain k where k: "n = Suc k" "j < k"
      by (cases n) auto
    with Cons.prems r have "k < length (run repr ts (st\<lparr>counter := counter st + 1\<rparr>))"
      by (simp add: run_Cons)
    from Cons.IH [OF this k(2)] Suc show ?thesis by simp
  qed
qed

lemma run_all_return:
  "(\<And>i. i < length ts \<Longrightarrow> raised (ts ! i) = None) \<Longrightarrow> length (run repr ts st) = length ts"
proof (induction ts arbitrary: st)
  case Nil
  then show ?case by simp
next
  case (Cons t ts)
  from Cons.prems [of 0] have r: "raised t = None" by simp
  have "length (run repr ts (st\<lparr>counter := counter st + 1\<rparr>)) = length ts"
  proof (rule Cons.IH)
    fix i assume "i < length ts"
    then show "raised (ts ! i) = None"
      using Cons.prems [of "Suc i"] by simp
  qed
  with r show ?case by (simp add: run_Cons)
qed

lemma run_stops:
  assumes "n < length (run repr ts st)" and "raised (ts ! n) = Some e"
  shows "length (run repr ts st) = Suc n"
  using assms
proof (induction ts arbitrary: st n)
  case Nil
  then show ?case by simp
next
  case (Cons t ts)
  show ?case
  proof (cases n)
    case 0
    with Cons.prems show ?thesis by (simp add: run_Cons)
  next
    case (Suc k)
    with Cons.prems have r: "raised t = None"
      by (auto simp: run_Cons split: option.splits)
    with Cons.prems Suc have "k < length (run repr ts (st\<lparr>counter := counter st + 1\<rparr>))"
      by (simp add: run_Cons)
    moreover from Cons.prems Suc have "raised (ts ! k) = Some e" by simp
    ultimately have "length (run repr ts (st\<lparr>counter := counter st + 1\<rparr>)) = Suc k"
      by (rule Cons.IH)
    with r Suc show ?thesis by (simp add: run_Cons)
  qed
qed

lemma samples_body: "samples \<lparr>start = s, calls = fst (body repr t st), outcome = out\<rparr> = [make_data t]"
  by (simp add: samples_def body_def Let_def split: option.split sum.split)

lemma published_body:
  "published \<lparr>start = s, calls = fst (body repr t st), outcome = out\<rparr> =
     [(''test'', json_dumps repr (make_data t))]"
  by (simp add: published_def body_def Let_def split: option.split sum.split)

lemma printed_body:
  "printed \<lparr>start = s, calls = fst (body repr t st), outcome = out\<rparr> =
     (case produce_out t of Some e \<Rightarrow> [] | None \<Rightarrow> [format_sample (counter st)])"
  by (simp add: printed_def body_def Let_def split: option.split sum.split)

lemma loop_Some_raised:
  assumes "loop repr s st = Some e"
  shows "\<exists>i. raised (s !! i) = Some e"
proof (rule loop.raw_induct [where P = "\<lambda>r s st e. \<exists>i. raised (s !! i) = Some e", OF _ assms])
  fix f r s st e
  assume IH: "\<And>r s st e. f r s st = Some e \<Longrightarrow> \<exists>i. raised (s !! i) = Some e"
    and step: "(case snd (body r (shd s) st) of Inl e \<Rightarrow> Some e | Inr st' \<Rightarrow> f r (stl s) st') = Some e"
  show "\<exists>i. raised (s !! i) = Some e"
  proof (cases "raised (shd s)")
    case None
    with step have "f r (stl s) (st\<lparr>counter := counter st + 1\<rparr>) = Some e"
      by (simp add: body_outcome)
    then obtain i where "raised (stl s !! i) = Some e"
      using IH by blast
    then have "raised (s !! Suc i) = Some e"
      by simp
    then show ?thesis ..
  next
    case (Some e')
    with step have "e' = e"
      by (simp add: body_outcome)
    with Some have "raised (s !! 0) = Some e"
      by simp
    then show ?thesis ..
  qed
qed

lemma loop_raised:
  "(\<And>i. i < n \<Longrightarrow> raised (s !! i) = None) \<Longrightarrow> raised (s !! n) = Some e \<Longrightarrow>
   loop repr s st = Some e"
proof (induction n arbitrary: s st)
  case 0
  then show ?case
    by (subst loop.simps) (simp add: body_outcome)
next
  case (Suc n)
  from Suc.prems(1) [of 0] have r: "raised (shd s) = None"
    by simp
  have "loop repr (stl s) (st\<lparr>counter := counter st + 1\<rparr>) = Some e"
  proof (rule Suc.IH)
    fix i assume "i < n"
    then show "raised (stl s !! i) = None"
      using Suc.prems(1) [of "Suc i"] by simp
  next
    show "raised (stl s !! n) = Some e"
      using Suc.prems(2) by simp
  qed
  with r show ?case
    by (subst loop.simps) (simp add: body_outcome)
qed

lemma concat_singletons:
  "(\<And>x. x \<in> set xs \<Longrightarrow> \<exists>p. f x = [(a, p)]) \<Longrightarrow>
   map fst (concat (map f xs)) = replicate (length xs) a"
proof (induction xs)
  case Nil
  then show ?case by simp
next
  case (Cons x xs)
  from Cons.prems [of x] obtain p where "f x = [(a, p)]"
    by auto
  moreover have "map fst (concat (map f xs)) = replicate (length xs) a"
    by (rule Cons.IH) (simp add: Cons.prems)
  ultimately show ?case by simp
qed

lemma is_draw_half: "is_draw (1 / 2)"
  by (simp add: is_draw_def is_double_def round_double_def binade.simps pow2_def round_half_even_def Let_def)

lemma wire_payload_dumps:
  "json_dumps repr [(''value1'', v1), (''value2'', v2)] = wire_payload repr v1 v2"
  by (simp add: json_dumps_def json_item_def wire_payload_def)

section \<open>The claims\<close>

text \<open>
  In what follows \<open>run repr ts st ! n\<close> is pass number \<open>n + 1\<close> of the loop (lists count
  from 0), and \<open>n < length (run repr ts st)\<close> says that the loop got as far as starting it.
\<close>

text \<open>
  C1, as the code has it. In every pass whose two draws keep the promise of \<open>random()\<close>
  (a float in \<open>[0, 1)\<close>), the sample handed to \<open>json.dumps\<close> has exactly the fields
  \<open>value1\<close> and \<open>value2\<close> with \<open>0 \<le> value1 < 1\<close> and \<open>1 \<le> value2 \<le> 2\<close>. The upper
  bound of \<open>value2\<close> is not strict: \<open>value2 < 2\<close> holds exactly when the second draw is
  below \<open>1 - 2^-53\<close>, the largest float under 1, whose sum with 1 rounds to \<open>2.0\<close>.
\<close>

theorem sample_ranges:
  assumes "n < length (run repr ts st)"
    and "is_draw (draw1 (ts ! n))" and "is_draw (draw2 (ts ! n))"
  shows "\<exists>v1 v2. samples (run repr ts st ! n) = [[(''value1'', v1), (''value2'', v2)]] \<and>
           0 \<le> v1 \<and> v1 < 1 \<and> 1 \<le> v2 \<and> v2 \<le> 2 \<and>
           (v2 < 2 \<longleftrightarrow> draw2 (ts ! n) < 1 - 1 / 2 ^ 53)"
proof -
  let ?t = "ts ! n"
  have s: "samples (run repr ts st ! n) = [[(''value1'', draw1 ?t), (''value2'', fadd 1 (draw2 ?t))]]"
    using assms(1) by (simp add: run_nth samples_body make_data_def)
  have r1: "0 \<le> draw1 ?t" "draw1 ?t < 1" and r2: "0 \<le> draw2 ?t" "draw2 ?t < 1"
    using assms(2,3) by (simp_all add: is_draw_def)
  from r2 have "1 \<le> fadd 1 (draw2 ?t)" and "fadd 1 (draw2 ?t) \<le> 2"
    and "fadd 1 (draw2 ?t) < 2 \<longleftrightarrow> draw2 ?t < 1 - 1 / 2 ^ 53"
    by (rule fadd_one_bounds)+
  with s r1 show ?thesis
    by blast
qed

theorem sample_ranges_witness:
  "(let r = (\<lambda>x. if x = 1 / 2 then ''0.5'' else ''1.5'');
        t = \<lparr>draw1 = 1 / 2, draw2 = 1 / 2, produce_out = None, flush_out = Inr 0\<rparr>
    in 0 < length (run r [t] init) \<and>
       is_draw (draw1 ([t] ! 0)) \<and> is_draw (draw2 ([t] ! 0)) \<and>
       (\<exists>v1 v2. samples (run r [t] init ! 0) = [[(''value1'', v1), (''value2'', v2)]] \<and>
          0 \<le> v1 \<and> v1 < 1 \<and> 1 \<le> v2 \<and> v2 \<le> 2 \<and>
          (v2 < 2 \<longleftrightarrow> draw2 ([t] ! 0) < 1 - 1 / 2 ^ 53)))"
proof -
  let ?r = "(\<lambda>x. if x = 1 / 2 then ''0.5'' else ''1.5'')"
  let ?t = "\<lparr>draw1 = 1 / 2, draw2 = 1 / 2, produce_out = None, flush_out = Inr 0\<rparr>"
  have h1: "0 < length (run ?r [?t] init)"
    by (simp add: run_Cons)
  have h2: "is_draw (draw1 ([?t] ! 0))"
    by (simp add: is_draw_half)
  have h3: "is_draw (draw2 ([?t] ! 0))"
    by (simp add: is_draw_half)
  show ?thesis
    unfolding Let_def using h1 h2 h3 sample_ranges [OF h1 h2 h3] by blast
qed

text \<open>
  The claim as it is written fails at the draw \<open>1 - 2^-53 = 0.9999999999999999\<close>: it is a
  float in \<open>[0, 1)\<close>, and the sample made from it has \<open>value2 = 2\<close>.
\<close>

theorem sample_value2_counterexample:
  "is_draw (9007199254740991 / 9007199254740992) \<and>
   make_data \<lparr>draw1 = 0, draw2 = 9007199254740991 / 9007199254740992,
              produce_out = None, flush_out = Inr 0\<rparr> = [(''value1'', 0), (''value2'', 2)] \<and>
   \<not> (snd (make_data \<lparr>draw1 = 0, draw2 = 9007199254740991 / 9007199254740992,
              produce_out = None, flush_out = Inr 0\<rparr> ! 1) < 2)"
  by (simp add: is_draw_def is_double_def make_data_def fadd_def round_double_def binade.simps pow2_def round_half_even_def Let_def
      floor_numeral_div_rat)

text \<open>
  C2. The counter is 1 before the first pass; pass number \<open>n + 1\<close> starts with the counter
  at \<open>n + 1\<close>; a pass that completes leaves it one higher (a pass that does not complete
  raised, and is the last).
\<close>

theorem counter_sequence:
  assumes "n < length (run repr ts init)"
  shows "counter init = 1 \<and>
         counter (start (run repr ts init ! n)) = int n + 1 \<and>
         (case outcome (run repr ts init ! n) of
            Inl e \<Rightarrow> raised (ts ! n) = Some e
          | Inr st' \<Rightarrow> counter st' = counter (start (run repr ts init ! n)) + 1)"
  using assms by (simp add: run_nth body_outcome init_def split: option.split)

theorem counter_sequence_witness:
  "(let r = (\<lambda>x. if x = 1 / 2 then ''0.5'' else ''1.5'');
        t = \<lparr>draw1 = 1 / 2, draw2 = 1 / 2, produce_out = None, flush_out = Inr 0\<rparr>
    in 2 < length (run r [t, t, t] init) \<and>
       counter init = 1 \<and>
       counter (start (run r [t, t, t] init ! 2)) = 3 \<and>
       outcome (run r [t, t, t] init ! 2) = Inr \<lparr>counter = 4\<rparr>)"
proof -
  let ?r = "(\<lambda>x. if x = 1 / 2 then ''0.5'' else ''1.5'')"
  let ?t = "\<lparr>draw1 = 1 / 2, draw2 = 1 / 2, produce_out = None, flush_out = Inr 0\<rparr>"
  have h: "2 < length (run ?r [?t, ?t, ?t] init)"
    by (simp add: run_Cons raised_def)
  have o: "outcome (run ?r [?t, ?t, ?t] init ! 2) = Inr \<lparr>counter = 4\<rparr>"
    by (simp add: run_Cons raised_def body_outcome init_def)
  show ?thesis
    unfolding Let_def using h o counter_sequence [OF h] by simp
qed

text \<open>
  C3. Every pass of the loop that is started issues exactly one publish call, and its
  destination is the string \<open>test\<close>; so the destinations of all publish calls of a history
  are as many copies of \<open>test\<close> as there are passes.
\<close>

theorem publish_destination:
  assumes "n < length (run repr ts st)"
  shows "published (run repr ts st ! n) = [(''test'', json_dumps repr (make_data (ts ! n)))] \<and>
         map fst (concat (map published (run repr ts st))) =
           replicate (length (run repr ts st)) ''test''"
proof
  show "published (run repr ts st ! n) = [(''test'', json_dumps repr (make_data (ts ! n)))]"
    using assms by (simp add: run_nth published_body)
  show "map fst (concat (map published (run repr ts st))) =
          replicate (length (run repr ts st)) ''test''"
  proof (rule concat_singletons)
    fix x assume "x \<in> set (run repr ts st)"
    then obtain i where "i < length (run repr ts st)" and "x = run repr ts st ! i"
      by (auto simp: in_set_conv_nth)
    then show "\<exists>p. published x = [(''test'', p)]"
      by (simp add: run_nth published_body)
  qed
qed

theorem publish_destination_witness:
  "(let r = (\<lambda>x. if x = 1 / 2 then ''0.5'' else ''1.5'');
        t = \<lparr>draw1 = 1 / 2, draw2 = 1 / 2, produce_out = None, flush_out = Inr 0\<rparr>
    in 1 < length (run r [t, t] init) \<and>
       published (run r [t, t] init ! 1) = [(''test'', wire_payload r (1 / 2) (3 / 2))] \<and>
       map fst (concat (map published (run r [t, t] init))) = [''test'', ''test''])"
proof -
  let ?r = "(\<lambda>x. if x = 1 / 2 then ''0.5'' else ''1.5'')"
  let ?t = "\<lparr>draw1 = 1 / 2, draw2 = 1 / 2, produce_out = None, flush_out = Inr 0\<rparr>"
  have h: "1 < length (run ?r [?t, ?t] init)"
    by (simp add: run_Cons raised_def)
  have l: "length (run ?r [?t, ?t] init) = 2"
    by (simp add: run_Cons raised_def)
  have f: "fadd 1 (1 / 2) = 3 / 2"
    by (simp add: fadd_def round_double_def binade.simps pow2_def round_half_even_def Let_def)
  have d: "json_dumps ?r (make_data ([?t, ?t] ! 1)) = wire_payload ?r (1 / 2) (3 / 2)"
    by (simp only: make_data_def wire_payload_dumps [symmetric]) (simp add: f)
  show ?thesis
    unfolding Let_def using h publish_destination [OF h]
    by (simp only: l d) (simp add: numeral_2_eq_2)
qed

text \<open>
  C4. The payload of every publish call is the JSON text of a dict with exactly the keys
  \<open>value1\<close> and \<open>value2\<close>, in this order, both mapped to floats: the first draw and one
  plus the second draw. Neither the sample nor the payload depends on the state the pass
  starts from, so the counter is in no payload.
\<close>

theorem payload_shape:
  assumes "n < length (run repr ts st)"
  shows "samples (run repr ts st ! n) =
           [[(''value1'', draw1 (ts ! n)), (''value2'', fadd 1 (draw2 (ts ! n)))]] \<and>
         published (run repr ts st ! n) =
           [(''test'', wire_payload repr (draw1 (ts ! n)) (fadd 1 (draw2 (ts ! n))))]"
  using assms
  by (simp add: run_nth samples_body published_body make_data_def wire_payload_dumps)

theorem payload_shape_witness:
  "(let r = (\<lambda>x. if x = 1 / 2 then ''0.5'' else ''1.5'');
        t = \<lparr>draw1 = 1 / 2, draw2 = 1 / 2, produce_out = None, flush_out = Inr 0\<rparr>
    in 0 < length (run r [t] \<lparr>counter = 7\<rparr>) \<and>
       samples (run r [t] \<lparr>counter = 7\<rparr> ! 0) = [[(''value1'', 1 / 2), (''value2'', 3 / 2)]] \<and>
       map snd (published (run r [t] \<lparr>counter = 7\<rparr> ! 0)) = [wire_payload r (1 / 2) (3 / 2)])"
proof -
  let ?r = "(\<lambda>x. if x = 1 / 2 then ''0.5'' else ''1.5'')"
  let ?t = "\<lparr>draw1 = 1 / 2, draw2 = 1 / 2, produce_out = None, flush_out = Inr 0\<rparr>"
  have h: "0 < length (run ?r [?t] \<lparr>counter = 7\<rparr>)"
    by (simp add: run_Cons)
  have f: "fadd 1 (1 / 2) = 3 / 2"
    by (simp add: fadd_def round_double_def binade.simps pow2_def round_half_even_def Let_def)
  show ?thesis
    unfolding Let_def using h payload_shape [OF h] by (simp add: f)
qed

text \<open>
  C6. A pass in which \<open>produce\<close> returns and \<open>flush\<close> returns, whatever number of
  unacknowledged messages \<open>m\<close> it reports, makes exactly these calls in this order: the
  two draws, \<open>json.dumps\<close> of the sample, \<open>produce\<close> of the payload to \<open>test\<close>, \<open>print\<close>
  of the line of the counter, \<open>flush\<close> with the timeout 1, \<open>sleep\<close> with 0.5; then the
  loop goes on with the counter one higher.
\<close>

theorem iteration_order:
  assumes "n < length (run repr ts st)"
    and "produce_out (ts ! n) = None" and "flush_out (ts ! n) = Inr m"
  shows "calls (run repr ts st ! n) =
           [Call_random, Call_random, Call_dumps (make_data (ts ! n)),
            Call_produce ''test'' (json_dumps repr (make_data (ts ! n))),
            Call_print (format_sample (counter st + int n)),
            Call_flush 1, Call_sleep (1 / 2)] \<and>
         outcome (run repr ts st ! n) = Inr (st\<lparr>counter := counter st + int n + 1\<rparr>)"
  using assms by (simp add: run_nth body_returns)

theorem iteration_order_witness:
  "(let r = (\<lambda>x. if x = 1 / 2 then ''0.5'' else ''1.5'');
        t = \<lparr>draw1 = 1 / 2, draw2 = 1 / 2, produce_out = None, flush_out = Inr 1\<rparr>
    in 0 < length (run r [t] init) \<and>
       produce_out ([t] ! 0) = None \<and> flush_out ([t] ! 0) = Inr 1 \<and>
       calls (run r [t] init ! 0) =
         [Call_random, Call_random,
          Call_dumps [(''value1'', 1 / 2), (''value2'', 3 / 2)],
          Call_produce ''test'' (wire_payload r (1 / 2) (3 / 2)),
          Call_print ''Sample #1 produced!'',
          Call_flush 1, Call_sleep (1 / 2)] \<and>
       outcome (run r [t] init ! 0) = Inr \<lparr>counter = 2\<rparr>)"
proof -
  let ?r = "(\<lambda>x. if x = 1 / 2 then ''0.5'' else ''1.5'')"
  let ?t = "\<lparr>draw1 = 1 / 2, draw2 = 1 / 2, produce_out = None, flush_out = Inr 1\<rparr>"
  have h1: "0 < length (run ?r [?t] init)"
    by (simp add: run_Cons)
  have h2: "produce_out ([?t] ! 0) = None"
    by simp
  have h3: "flush_out ([?t] ! 0) = Inr 1"
    by simp
  have f: "fadd 1 (1 / 2) = 3 / 2"
    by (simp add: fadd_def round_double_def binade.simps pow2_def round_half_even_def Let_def)
  have d: "make_data ([?t] ! 0) = [(''value1'', 1 / 2), (''value2'', 3 / 2)]"
    by (simp add: make_data_def f)
  have p: "format_sample (counter init + int 0) = ''Sample #1 produced!''"
    by (simp add: format_sample_def str_int_def init_def)
  show ?thesis
    unfolding Let_def using h1 h2 h3 iteration_order [OF h1 h2 h3]
    by (simp only: d p wire_payload_dumps) (simp add: init_def)
qed

text \<open>
  C7. Every pass whose publish call returns prints exactly one line, \<open>Sample #k produced!\<close>
  with \<open>k\<close> the number of the pass; the first line is \<open>Sample #1 produced!\<close>.
\<close>

theorem console_line:
  assumes "n < length (run repr ts init)" and "produce_out (ts ! n) = None"
  shows "printed (run repr ts init ! n) = [''Sample #'' @ str_int (int n + 1) @ '' produced!'']"
  using assms by (simp add: run_nth printed_body format_sample_def init_def add.commute)

theorem console_line_witness:
  "(let r = (\<lambda>x. if x = 1 / 2 then ''0.5'' else ''1.5'');
        t = \<lparr>draw1 = 1 / 2, draw2 = 1 / 2, produce_out = None, flush_out = Inr 0\<rparr>
    in 0 < length (run r [t] init) \<and>
       produce_out ([t] ! 0) = None \<and>
       printed (run r [t] init ! 0) = [''Sample #1 produced!''])"
proof -
  let ?r = "(\<lambda>x. if x = 1 / 2 then ''0.5'' else ''1.5'')"
  let ?t = "\<lparr>draw1 = 1 / 2, draw2 = 1 / 2, produce_out = None, flush_out = Inr 0\<rparr>"
  have h1: "0 < length (run ?r [?t] init)"
    by (simp add: run_Cons)
  have h2: "produce_out ([?t] ! 0) = None"
    by simp
  show ?thesis
    unfolding Let_def using h1 h2 console_line [OF h1 h2] by (simp add: str_int_def)
qed

text \<open>
  C8. The loop has no exit of its own: when no library call raises, the loop never returns,
  and for every \<open>N\<close> the first \<open>N\<close> passes all take place.
\<close>

theorem loop_never_returns:
  assumes "\<forall>i. raised (s !! i) = None"
  shows "loop repr s st = None \<and> (\<forall>N. length (run repr (stake N s) st) = N)"
proof
  show "loop repr s st = None"
  proof (cases "loop repr s st")
    case None
    then show ?thesis .
  next
    case (Some e)
    then obtain i where "raised (s !! i) = Some e"
      using loop_Some_raised by blast
    with assms show ?thesis
      by simp
  qed
  show "\<forall>N. length (run repr (stake N s) st) = N"
  proof
    fix N
    have "length (run repr (stake N s) st) = length (stake N s)"
      by (rule run_all_return) (simp add: assms)
    then show "length (run repr (stake N s) st) = N"
      by simp
  qed
qed

theorem loop_never_returns_witness:
  "(let r = (\<lambda>x. if x = 1 / 2 then ''0.5'' else ''1.5'');
        t = \<lparr>draw1 = 1 / 2, draw2 = 1 / 2, produce_out = None, flush_out = Inr 0\<rparr>
    in (\<forall>i. raised (sconst t !! i) = None) \<and>
       loop r (sconst t) init = None \<and>
       (\<forall>N. length (run r (stake N (sconst t)) init) = N))"
proof -
  let ?r = "(\<lambda>x. if x = 1 / 2 then ''0.5'' else ''1.5'')"
  let ?t = "\<lparr>draw1 = 1 / 2, draw2 = 1 / 2, produce_out = None, flush_out = Inr 0\<rparr>"
  have h: "\<forall>i. raised (sconst ?t !! i) = None"
    by (simp add: raised_def)
  show ?thesis
    unfolding Let_def using h loop_never_returns [OF h] by blast
qed

text \<open>
  C9. The payload published in a pass is a function of the two draws of that pass alone:
  two runs, from any two states and over any two environments, that both reach pass
  \<open>n + 1\<close> and make the same two draws there publish the same payload there.
\<close>

theorem payload_independent:
  assumes "n < length (run repr ts st)" and "n < length (run repr ts' st')"
    and "draw1 (ts ! n) = draw1 (ts' ! n)" and "draw2 (ts ! n) = draw2 (ts' ! n)"
  shows "published (run repr ts st ! n) = published (run repr ts' st' ! n)"
  using assms by (simp add: run_nth published_body make_data_def)

theorem payload_independent_witness:
  "(let r = (\<lambda>x. if x = 1 / 2 then ''0.5'' else ''1.5'');
        ts = [\<lparr>draw1 = 1 / 2, draw2 = 1 / 2, produce_out = None, flush_out = Inr 0\<rparr>,
              \<lparr>draw1 = 1 / 4, draw2 = 3 / 4, produce_out = None, flush_out = Inl (Exn ''KafkaException'')\<rparr>];
        ts' = [\<lparr>draw1 = 0, draw2 = 1 / 8, produce_out = None, flush_out = Inr 5\<rparr>,
               \<lparr>draw1 = 1 / 4, draw2 = 3 / 4, produce_out = None, flush_out = Inr 9\<rparr>]
    in 1 < length (run r ts init) \<and>
       1 < length (run r ts' \<lparr>counter = 40\<rparr>) \<and>
       draw1 (ts ! 1) = draw1 (ts' ! 1) \<and>
       draw2 (ts ! 1) = draw2 (ts' ! 1) \<and>
       published (run r ts init ! 1) = published (run r ts' \<lparr>counter = 40\<rparr> ! 1))"
proof -
  let ?r = "(\<lambda>x. if x = 1 / 2 then ''0.5'' else ''1.5'')"
  let ?ts = "[\<lparr>draw1 = 1 / 2, draw2 = 1 / 2, produce_out = None, flush_out = Inr 0\<rparr>,
              \<lparr>draw1 = 1 / 4, draw2 = 3 / 4, produce_out = None, flush_out = Inl (Exn ''KafkaException'')\<rparr>]"
  let ?ts' = "[\<lparr>draw1 = 0, draw2 = 1 / 8, produce_out = None, flush_out = Inr 5\<rparr>,
               \<lparr>draw1 = 1 / 4, draw2 = 3 / 4, produce_out = None, flush_out = Inr 9\<rparr>]"
  have h1: "1 < length (run ?r ?ts init)"
    by (simp add: run_Cons raised_def)
  have h2: "1 < length (run ?r ?ts' \<lparr>counter = 40\<rparr>)"
    by (simp add: run_Cons raised_def)
  have h3: "draw1 (?ts ! 1) = draw1 (?ts' ! 1)"
    by simp
  have h4: "draw2 (?ts ! 1) = draw2 (?ts' ! 1)"
    by simp
  show ?thesis
    unfolding Let_def using h1 h2 h3 h4 payload_independent [OF h1 h2 h3 h4] by blast
qed

text \<open>
  C10. When \<open>produce\<close> or \<open>flush\<close> raises in a pass, that pass is the last of every
  history, however many ticks are left; the exception is the outcome of the pass and
  the value the loop returns; the payload of the pass was handed to \<open>produce\<close> once, and
  the call that raised is the last call made.
\<close>

theorem raise_ends_loop:
  assumes "n < length (run repr (stake m s) st)" and "raised (s !! n) = Some e"
  shows "length (run repr (stake m s) st) = Suc n \<and>
         outcome (run repr (stake m s) st ! n) = Inl e \<and>
         loop repr s st = Some e \<and>
         published (run repr (stake m s) st ! n) = [(''test'', json_dumps repr (make_data (s !! n)))] \<and>
         last (calls (run repr (stake m s) st ! n)) =
           (case produce_out (s !! n) of
              Some e' \<Rightarrow> Call_produce ''test'' (json_dumps repr (make_data (s !! n)))
            | None \<Rightarrow> Call_flush 1)"
proof -
  let ?ts = "stake m s"
  have "length (run repr ?ts st) \<le> length ?ts"
    by (rule length_run_le)
  with assms(1) have nm: "n < m"
    by simp
  then have tn: "?ts ! n = s !! n"
    by simp
  with assms(2) have r: "raised (?ts ! n) = Some e"
    by simp
  have a: "length (run repr ?ts st) = Suc n"
    using assms(1) r by (rule run_stops)
  have b: "outcome (run repr ?ts st ! n) = Inl e"
    using assms(1) r by (simp add: run_nth body_outcome)
  have "\<And>i. i < n \<Longrightarrow> raised (s !! i) = None"
  proof -
    fix i assume i: "i < n"
    with assms(1) have "raised (?ts ! i) = None"
      by (rule run_reached)
    with i nm show "raised (s !! i) = None"
      by simp
  qed
  then have c: "loop repr s st = Some e"
    using assms(2) by (rule loop_raised)
  have d: "published (run repr ?ts st ! n) = [(''test'', json_dumps repr (make_data (s !! n)))]"
    using assms(1) tn by (simp add: run_nth published_body)
  have e: "last (calls (run repr ?ts st ! n)) =
           (case produce_out (s !! n) of
              Some e' \<Rightarrow> Call_produce ''test'' (json_dumps repr (make_data (s !! n)))
            | None \<Rightarrow> Call_flush 1)"
    using assms(1) r tn
    by (auto simp: run_nth raised_def body_produce_raises body_flush_raises
        split: option.splits sum.splits)
  from a b c d e show ?thesis
    by blast
qed

theorem raise_ends_loop_witness:
  "(let r = (\<lambda>x. if x = 1 / 2 then ''0.5'' else ''1.5'');
        s = \<lparr>draw1 = 1 / 2, draw2 = 1 / 2, produce_out = None, flush_out = Inr 0\<rparr> ##
            sconst \<lparr>draw1 = 1 / 4, draw2 = 3 / 4, produce_out = None, flush_out = Inl (Exn ''KafkaException'')\<rparr>
    in 1 < length (run r (stake (Suc (Suc (Suc 0))) s) init) \<and>
       raised (s !! 1) = Some (Exn ''KafkaException'') \<and>
       length (run r (stake (Suc (Suc (Suc 0))) s) init) = 2 \<and>
       loop r s init = Some (Exn ''KafkaException'') \<and>
       last (calls (run r (stake (Suc (Suc (Suc 0))) s) init ! 1)) = Call_flush 1)"
proof -
  let ?r = "(\<lambda>x. if x = 1 / 2 then ''0.5'' else ''1.5'')"
  let ?s = "\<lparr>draw1 = 1 / 2, draw2 = 1 / 2, produce_out = None, flush_out = Inr 0\<rparr> ##
            sconst \<lparr>draw1 = 1 / 4, draw2 = 3 / 4, produce_out = None, flush_out = Inl (Exn ''KafkaException'')\<rparr>"
  have h1: "1 < length (run ?r (stake (Suc (Suc (Suc 0))) ?s) init)"
    by (simp add: run_Cons raised_def)
  have h2: "raised (?s !! 1) = Some (Exn ''KafkaException'')"
    by (simp add: raised_def)
  show ?thesis
    unfolding Let_def using h1 h2 raise_ends_loop [OF h1 h2] by simp
qed

end
